theory Spec2Isabelle
  imports Main "HOL-Library.Word"
begin

section \<open>Data\<close>

text \<open>
  Buffers are lists of bytes. JavaScript and Java strings are sequences of UTF-16 code
  units; a code unit is a natural number, and \<open>lit\<close> turns a literal into the code units
  of its characters, so that \<open>length\<close> is the \<^verbatim>\<open>.length\<close> of the string.
\<close>

type_synonym byte = "8 word"

type_synonym utf16 = "nat list"

definition lit :: "string \<Rightarrow> utf16" where
  "lit s = map of_char s"

text \<open>
  The failures of the decoders and of the encoder. The code has no exception classes of
  its own: every failure is the exception of the library call that raised it, and the
  constructor names the stage of that call. \<open>PayloadTooLarge\<close> is the error kind of the
  specification for a decompressed size above a ceiling.
\<close>

datatype stage = PercentDecoding | Base64Decoding | Decompression

datatype error =
    DecodeError stage
  | ParseError
  | PayloadTooLarge
  | EncodeError

text \<open>The document exchanged with the remote IDE (\<^verbatim>\<open>contivaExample\<close> in contiva-encoder.js).\<close>

record DebugPayload =
  currentSessionType :: string
  scriptInput :: string
  script :: string
  functionName :: string
  headers :: "(string \<times> string) list"
  properties :: "(string \<times> string) list"

definition contivaExample :: DebugPayload where
  "contivaExample = \<lparr>
     currentSessionType = ''groovy'',
     scriptInput = ''{ \"test\": \"testval3\" }'',
     script = ''import com.sap.gateway.ip.core.customdev.util.Message;'' @ [CHR 0x0A, CHR 0x0A]
       @ ''def Message processData(Message message) {'' @ [CHR 0x0A]
       @ ''    return message;'' @ [CHR 0x0A] @ ''}'',
     functionName = ''processData'',
     headers = [(''SAP_MessageProcessingLogID'', ''AGlnwRPCOT1y6HLEfkmHVDXWnnu0''),
                (''SAP_TRACE_HEADER_1768407316206_MessageType'', ''STEP'')],
     properties = [(''AnotherProp'', ''conf1''), (''TestingProp'', ''conf2'')] \<rparr>"

section \<open>Alphabet and padding\<close>

text \<open>
  \<^verbatim>\<open>s.replace(/-/g, '+').replace(/_/g, '/')\<close> in decodeGroovyString and decodeContivaData,
  \<^verbatim>\<open>replace('-' as char, '+' as char).replace('_' as char, '/' as char)\<close> in decodeGroovyData.
\<close>

definition replaceAll :: "nat \<Rightarrow> nat \<Rightarrow> utf16 \<Rightarrow> utf16" where
  "replaceAll a b s = map (\<lambda>c. if c = a then b else c) s"

definition toStandardBase64 :: "utf16 \<Rightarrow> utf16" where
  "toStandardBase64 s = replaceAll 95 47 (replaceAll 45 43 s)"

text \<open>\<^verbatim>\<open>const paddingNeeded = (4 - (base64.length % 4)) % 4\<close>, the same line in all three functions.\<close>

definition paddingNeeded :: "nat \<Rightarrow> nat" where
  "paddingNeeded len = (4 - len mod 4) mod 4"

text \<open>\<^verbatim>\<open>standardBase64 += '='.repeat(paddingNeeded)\<close>\<close>

definition restorePadding :: "utf16 \<Rightarrow> utf16" where
  "restorePadding s = s @ replicate (paddingNeeded (length s)) 61"

section \<open>Base64 of the two runtimes\<close>

text \<open>The standard alphabet: the character of a six-bit value.\<close>

definition b64char :: "nat \<Rightarrow> nat" where
  "b64char i = (if i < 26 then 65 + i else if i < 52 then 71 + i else if i < 62 then i - 4
     else if i = 62 then 43 else 47)"

definition sextets3 :: "byte \<Rightarrow> byte \<Rightarrow> byte \<Rightarrow> nat list" where
  "sextets3 a b c =
     [unat a div 4, (unat a mod 4) * 16 + unat b div 16,
      (unat b mod 16) * 4 + unat c div 64, unat c mod 64]"

text \<open>
  \<^verbatim>\<open>buffer.toString('base64')\<close>: three bytes give four characters of the standard
  alphabet, a last group of two bytes gives three characters and one of one byte gives
  two, and \<open>=\<close> pads the text to a multiple of four.
\<close>

fun sextets :: "byte list \<Rightarrow> nat list" where
  "sextets (a # b # c # rest) = sextets3 a b c @ sextets rest"
| "sextets [a, b] = take 3 (sextets3 a b 0)"
| "sextets [a] = take 2 (sextets3 a 0 0)"
| "sextets [] = []"

definition toString_base64 :: "byte list \<Rightarrow> utf16" where
  "toString_base64 bs =
     map b64char (sextets bs) @ replicate ((3 - length bs mod 3) mod 3) 61"

text \<open>
  The decoding table of Node.js: it takes the URL-safe characters \<open>-\<close> and \<open>_\<close> as well
  as \<open>+\<close> and \<open>/\<close>.
\<close>

definition unbase64 :: "nat \<Rightarrow> nat option" where
  "unbase64 c =
     (if 65 \<le> c \<and> c \<le> 90 then Some (c - 65)
      else if 97 \<le> c \<and> c \<le> 122 then Some (c - 71)
      else if 48 \<le> c \<and> c \<le> 57 then Some (c + 4)
      else if c = 43 \<or> c = 45 then Some 62
      else if c = 47 \<or> c = 95 then Some 63
      else None)"

text \<open>
  \<^verbatim>\<open>Buffer.from(s, 'base64')\<close> never throws. It reads the low byte of each code unit, skips
  every character outside the alphabet, stops at the first \<open>=\<close>, and decodes what it has
  collected: four characters give three bytes, a last group of three gives two bytes, of
  two gives one byte, and a single left-over character gives nothing.
\<close>

fun node_sextets :: "utf16 \<Rightarrow> nat list" where
  "node_sextets [] = []"
| "node_sextets (c # cs) =
     (case unbase64 (c mod 256) of
        Some v \<Rightarrow> v # node_sextets cs
      | None \<Rightarrow> if c mod 256 = 61 then [] else node_sextets cs)"

fun sextets_bytes :: "nat list \<Rightarrow> byte list" where
  "sextets_bytes (p # q # r # s # rest) =
     [of_nat (p * 4 + q div 16), of_nat (q * 16 + r div 4), of_nat (r * 64 + s)]
       @ sextets_bytes rest"
| "sextets_bytes [p, q, r] = [of_nat (p * 4 + q div 16), of_nat (q * 16 + r div 4)]"
| "sextets_bytes [p, q] = [of_nat (p * 4 + q div 16)]"
| "sextets_bytes [p] = []"
| "sextets_bytes [] = []"

definition Buffer_from_base64 :: "utf16 \<Rightarrow> byte list" where
  "Buffer_from_base64 s = sextets_bytes (node_sextets s)"

text \<open>
  \<^verbatim>\<open>java.util.Base64.getDecoder().decode(String)\<close> is strict: the standard alphabet only,
  \<open>=\<close> only as the padding of the last unit, nothing after it. Each violation is an
  IllegalArgumentException. \<open>g\<close> holds the six-bit values of the unit being read.
\<close>

definition fromBase64 :: "nat \<Rightarrow> nat option" where
  "fromBase64 c =
     (if 65 \<le> c \<and> c \<le> 90 then Some (c - 65)
      else if 97 \<le> c \<and> c \<le> 122 then Some (c - 71)
      else if 48 \<le> c \<and> c \<le> 57 then Some (c + 4)
      else if c = 43 then Some 62
      else if c = 47 then Some 63
      else None)"

definition decode0_end :: "nat list \<Rightarrow> utf16 \<Rightarrow> error + byte list" where
  "decode0_end g rest =
     (if length g = 1 then Inl (DecodeError Base64Decoding)
      else if rest \<noteq> [] then Inl (DecodeError Base64Decoding)
      else Inr (sextets_bytes g))"

fun decode0 :: "nat list \<Rightarrow> utf16 \<Rightarrow> error + byte list" where
  "decode0 g [] = decode0_end g []"
| "decode0 g (c # cs) =
     (case fromBase64 c of
        Some v \<Rightarrow>
          if length g = 3
          then (case decode0 [] cs of
                  Inl e \<Rightarrow> Inl e
                | Inr out \<Rightarrow> Inr (sextets_bytes (g @ [v]) @ out))
          else decode0 (g @ [v]) cs
      | None \<Rightarrow>
          if c = 61 then
            (if length g = 0 then Inl (DecodeError Base64Decoding)
             else if length g = 2 then
               (case cs of
                  [] \<Rightarrow> Inl (DecodeError Base64Decoding)
                | d # ds \<Rightarrow> if d \<noteq> 61 then Inl (DecodeError Base64Decoding)
                            else decode0_end g ds)
             else decode0_end g cs)
          else Inl (DecodeError Base64Decoding))"

definition Base64_decoder_decode :: "utf16 \<Rightarrow> error + byte list" where
  "Base64_decoder_decode s = decode0 [] s"

section \<open>Percent-encoding of ECMAScript\<close>

text \<open>
  \<^verbatim>\<open>encodeURIComponent\<close> keeps letters, digits and \<^verbatim>\<open>- _ . ! ~ * ' ( )\<close>; every other
  code point becomes the \<open>%XX\<close> escapes of its UTF-8 octets, with upper-case digits. A
  surrogate without its partner is a URIError.
\<close>

definition uriUnreserved :: "nat \<Rightarrow> bool" where
  "uriUnreserved c =
     ((65 \<le> c \<and> c \<le> 90) \<or> (97 \<le> c \<and> c \<le> 122) \<or> (48 \<le> c \<and> c \<le> 57)
      \<or> c \<in> set [45, 95, 46, 33, 126, 42, 39, 40, 41])"

definition hexDigit :: "nat \<Rightarrow> nat" where
  "hexDigit n = (if n < 10 then 48 + n else 55 + n)"

definition escape :: "nat \<Rightarrow> utf16" where
  "escape octet = [37, hexDigit (octet div 16), hexDigit (octet mod 16)]"

definition utf8_octets :: "nat \<Rightarrow> nat list" where
  "utf8_octets cp =
     (if cp < 0x80 then [cp]
      else if cp < 0x800 then [0xC0 + cp div 64, 0x80 + cp mod 64]
      else if cp < 0x10000 then
        [0xE0 + cp div 4096, 0x80 + cp div 64 mod 64, 0x80 + cp mod 64]
      else [0xF0 + cp div 262144, 0x80 + cp div 4096 mod 64, 0x80 + cp div 64 mod 64,
            0x80 + cp mod 64])"

definition prefixed :: "utf16 \<Rightarrow> error + utf16 \<Rightarrow> error + utf16" where
  "prefixed p r = (case r of Inl e \<Rightarrow> Inl e | Inr t \<Rightarrow> Inr (p @ t))"

fun encodeURIComponent :: "utf16 \<Rightarrow> error + utf16" where
  "encodeURIComponent [] = Inr []"
| "encodeURIComponent (c # cs) =
     (if uriUnreserved c then prefixed [c] (encodeURIComponent cs)
      else if c < 0xD800 \<or> 0xDFFF < c then
        prefixed (concat (map escape (utf8_octets c))) (encodeURIComponent cs)
      else if 0xDC00 \<le> c then Inl EncodeError
      else (case cs of
              [] \<Rightarrow> Inl EncodeError
            | d # ds \<Rightarrow>
                if 0xDC00 \<le> d \<and> d \<le> 0xDFFF then
                  prefixed
                    (concat (map escape
                       (utf8_octets (0x10000 + (c - 0xD800) * 1024 + (d - 0xDC00)))))
                    (encodeURIComponent ds)
                else Inl EncodeError))"

text \<open>
  \<^verbatim>\<open>decodeURIComponent\<close>: every \<open>%\<close> must start an escape of two hexadecimal digits, and
  the escaped octets above 0x7F must form the UTF-8 encoding of a code point; anything
  else is a URIError. The first pass reads the escapes, the second one the UTF-8.
\<close>

definition unhex :: "nat \<Rightarrow> nat option" where
  "unhex c =
     (if 48 \<le> c \<and> c \<le> 57 then Some (c - 48)
      else if 65 \<le> c \<and> c \<le> 70 then Some (c - 55)
      else if 97 \<le> c \<and> c \<le> 102 then Some (c - 87)
      else None)"

datatype token = Plain nat | Octet nat

fun unescape :: "utf16 \<Rightarrow> token list option" where
  "unescape [] = Some []"
| "unescape (c # cs) =
     (if c = 37 then
        (case cs of
           h1 # h2 # rest \<Rightarrow>
             (case unhex h1 of
                None \<Rightarrow> None
              | Some a \<Rightarrow>
                  (case unhex h2 of
                     None \<Rightarrow> None
                   | Some b \<Rightarrow> map_option ((#) (Octet (16 * a + b))) (unescape rest)))
         | _ \<Rightarrow> None)
      else map_option ((#) (Plain c)) (unescape cs))"

definition continuation :: "nat \<Rightarrow> bool" where
  "continuation b = (0x80 \<le> b \<and> b < 0xC0)"

definition codepoint2 :: "nat \<Rightarrow> nat \<Rightarrow> nat option" where
  "codepoint2 b1 b2 =
     (let cp = (b1 - 0xC0) * 64 + (b2 - 0x80)
      in if continuation b2 \<and> 0x80 \<le> cp then Some cp else None)"

definition codepoint3 :: "nat \<Rightarrow> nat \<Rightarrow> nat \<Rightarrow> nat option" where
  "codepoint3 b1 b2 b3 =
     (let cp = (b1 - 0xE0) * 4096 + (b2 - 0x80) * 64 + (b3 - 0x80)
      in if continuation b2 \<and> continuation b3 \<and> 0x800 \<le> cp
            \<and> (cp < 0xD800 \<or> 0xDFFF < cp)
         then Some cp else None)"

definition codepoint4 :: "nat \<Rightarrow> nat \<Rightarrow> nat \<Rightarrow> nat \<Rightarrow> nat option" where
  "codepoint4 b1 b2 b3 b4 =
     (let cp = (b1 - 0xF0) * 262144 + (b2 - 0x80) * 4096 + (b3 - 0x80) * 64 + (b4 - 0x80)
      in if continuation b2 \<and> continuation b3 \<and> continuation b4
            \<and> 0x10000 \<le> cp \<and> cp \<le> 0x10FFFF
         then Some cp else None)"

definition utf16_units :: "nat \<Rightarrow> utf16" where
  "utf16_units cp =
     (if cp < 0x10000 then [cp]
      else [0xD800 + (cp - 0x10000) div 1024, 0xDC00 + (cp - 0x10000) mod 1024])"

fun decode_octets :: "token list \<Rightarrow> utf16 option" where
  "decode_octets [] = Some []"
| "decode_octets (Plain c # ts) = map_option ((#) c) (decode_octets ts)"
| "decode_octets (Octet b # ts) =
     (if b < 0x80 then map_option ((#) b) (decode_octets ts)
      else if b < 0xC0 then None
      else if b < 0xE0 then
        (case ts of
           Octet b2 # r \<Rightarrow>
             (case codepoint2 b b2 of
                None \<Rightarrow> None
              | Some cp \<Rightarrow> map_option ((@) (utf16_units cp)) (decode_octets r))
         | _ \<Rightarrow> None)
      else if b < 0xF0 then
        (case ts of
           Octet b2 # Octet b3 # r \<Rightarrow>
             (case codepoint3 b b2 b3 of
                None \<Rightarrow> None
              | Some cp \<Rightarrow> map_option ((@) (utf16_units cp)) (decode_octets r))
         | _ \<Rightarrow> None)
      else if b < 0xF8 then
        (case ts of
           Octet b2 # Octet b3 # Octet b4 # r \<Rightarrow>
             (case codepoint4 b b2 b3 b4 of
                None \<Rightarrow> None
              | Some cp \<Rightarrow> map_option ((@) (utf16_units cp)) (decode_octets r))
         | _ \<Rightarrow> None)
      else None)"

definition decodeURIComponent :: "utf16 \<Rightarrow> error + utf16" where
  "decodeURIComponent s =
     (case unescape s of
        None \<Rightarrow> Inl (DecodeError PercentDecoding)
      | Some ts \<Rightarrow>
          (case decode_octets ts of
             None \<Rightarrow> Inl (DecodeError PercentDecoding)
           | Some t \<Rightarrow> Inr t))"

text \<open>
  What the two functions do to a character below 0x80: the encoder writes it as it is or
  as one escape, and the decoder reads it as a plain character or as one octet.
\<close>

definition percent_form :: "nat \<Rightarrow> utf16" where
  "percent_form c = (if uriUnreserved c then [c] else escape c)"

definition percent_token :: "nat \<Rightarrow> token" where
  "percent_token c = (if uriUnreserved c then Plain c else Octet c)"

section \<open>The libraries the codec calls\<close>

text \<open>
  JSON, the ZIP writer and zlib are not part of the repository. The functions below take
  them as a record of functions and are verified for every such record.

  A library call that writes a time stamp writes the one its options give, and the wall
  clock at the time of the call when the options give none.
\<close>

definition stamp :: "nat \<Rightarrow> nat option \<Rightarrow> nat" where
  "stamp now option = (case option of Some t \<Rightarrow> t | None \<Rightarrow> now)"

text \<open>
  For the encoder: \<^verbatim>\<open>JSON.stringify\<close>; the \<^verbatim>\<open>archiver\<close> ZIP writer, a function of the
  compression level, the archive's date, and the name, date and content of its one entry;
  \<^verbatim>\<open>zlib.gzipSync\<close>, a function of the modification time of the header and of the input.
  Each is \<open>None\<close> when the call throws or the archive stream reports an error.
\<close>

record 'p encoder_lib =
  JSON_stringify :: "'p \<Rightarrow> utf16 option"
  archiver_zip :: "nat \<Rightarrow> nat \<Rightarrow> utf16 \<Rightarrow> nat \<Rightarrow> utf16 \<Rightarrow> byte list option"
  gzipSync :: "nat \<Rightarrow> byte list \<Rightarrow> byte list option"

text \<open>
  For decodeGroovyString: \<^verbatim>\<open>zlib.inflateRawSync\<close> (\<open>None\<close> when it throws),
  \<^verbatim>\<open>buffer.toString('utf-8')\<close> and \<^verbatim>\<open>JSON.parse\<close> (\<open>None\<close> for its SyntaxError).
\<close>

record 'j node_lib =
  inflateRawSync :: "byte list \<Rightarrow> byte list option"
  toString_utf8 :: "byte list \<Rightarrow> utf16"
  JSON_parse :: "utf16 \<Rightarrow> 'j option"

text \<open>
  For decodeGroovyData: \<^verbatim>\<open>new Inflater(true)\<close> with \<^verbatim>\<open>setInput(buffer)\<close> and one call of
  \<^verbatim>\<open>inflate\<close> on an array of the given size, which yields the bytes written to the array
  (\<open>None\<close> for a DataFormatException); \<^verbatim>\<open>new String(bytes, 0, n, 'UTF-8')\<close>; and
  \<^verbatim>\<open>new JsonSlurper().parseText(s) as Map\<close> (\<open>None\<close> when either throws).
\<close>

record 'j groovy_lib =
  Inflater_inflate :: "byte list \<Rightarrow> nat \<Rightarrow> byte list option"
  new_String_utf8 :: "byte list \<Rightarrow> utf16"
  parseText_as_Map :: "utf16 \<Rightarrow> 'j option"

section \<open>contiva-encoder.js\<close>

text \<open>
  encodeContivaData. \<open>now\<close> is the wall clock of the call. Both dates passed to the
  archiver are \<^verbatim>\<open>new Date(0)\<close> and gzip is called with \<^verbatim>\<open>mtime: 0\<close>. An exception in the
  body, or an error event of the archive, rejects the promise.
\<close>

definition encodeContivaData :: "'p encoder_lib \<Rightarrow> nat \<Rightarrow> 'p \<Rightarrow> error + utf16" where
  "encodeContivaData lib now contivaData =
     (case JSON_stringify lib contivaData of
        None \<Rightarrow> Inl EncodeError
      | Some jsonString \<Rightarrow>
          (case archiver_zip lib 9 (stamp now (Some 0))
                  (lit ''data.json'') (stamp now (Some 0)) jsonString of
             None \<Rightarrow> Inl EncodeError
           | Some zipBuffer \<Rightarrow>
               (case gzipSync lib (stamp now (Some 0)) zipBuffer of
                  None \<Rightarrow> Inl EncodeError
                | Some compressed \<Rightarrow>
                    (let base64 = toString_base64 compressed;
                         padded = restorePadding base64
                     in encodeURIComponent padded))))"

record contiva_decoded =
  zipBuffer :: "byte list"
  message :: string

text \<open>decodeContivaData, with \<^verbatim>\<open>zlib.gunzipSync\<close> as its parameter (\<open>None\<close> when it throws).\<close>

definition decodeContivaData ::
  "(byte list \<Rightarrow> byte list option) \<Rightarrow> utf16 \<Rightarrow> error + contiva_decoded" where
  "decodeContivaData gunzipSync encodedData =
     (case decodeURIComponent encodedData of
        Inl e \<Rightarrow> Inl e
      | Inr decodedUrl \<Rightarrow>
          (let standardBase64 = toStandardBase64 decodedUrl;
               buffer = Buffer_from_base64 standardBase64
           in case gunzipSync buffer of
                None \<Rightarrow> Inl (DecodeError Decompression)
              | Some decompressed \<Rightarrow>
                  Inr \<lparr>zipBuffer = decompressed,
                       message = ''This is a ZIP archive. Extract with a ZIP tool or use the archiver library to read.''\<rparr>))"

section \<open>The two decoders of the deflate variant\<close>

text \<open>decodeGroovyString of the Express server.\<close>

definition decodeGroovyString :: "'j node_lib \<Rightarrow> utf16 \<Rightarrow> error + 'j" where
  "decodeGroovyString lib urlSafeBase64 =
     (let standardBase64 = toStandardBase64 urlSafeBase64;
          padded = restorePadding standardBase64;
          buffer = Buffer_from_base64 padded
      in case inflateRawSync lib buffer of
           None \<Rightarrow> Inl (DecodeError Decompression)
         | Some decompressed \<Rightarrow>
             (case JSON_parse lib (toString_utf8 lib decompressed) of
                None \<Rightarrow> Inl ParseError
              | Some parsed \<Rightarrow> Inr parsed))"

text \<open>
  decodeGroovyData of the Groovy server. The output array has 10240 bytes and
  \<^verbatim>\<open>inflate\<close> is called once; the string is made of the bytes that this call wrote.
\<close>

definition decodeGroovyData :: "'j groovy_lib \<Rightarrow> utf16 \<Rightarrow> error + 'j" where
  "decodeGroovyData lib urlSafeBase64 =
     (let standardBase64 = toStandardBase64 urlSafeBase64;
          padded = restorePadding standardBase64
      in case Base64_decoder_decode padded of
           Inl e \<Rightarrow> Inl e
         | Inr buffer \<Rightarrow>
             (case Inflater_inflate lib buffer 10240 of
                None \<Rightarrow> Inl (DecodeError Decompression)
              | Some decompressed \<Rightarrow>
                  (case parseText_as_Map lib (new_String_utf8 lib decompressed) of
                     None \<Rightarrow> Inl ParseError
                   | Some json \<Rightarrow> Inr json)))"

section \<open>Wire forms and the decode contract of the specification\<close>



text \<open>
  The decode contract of section 4.2 of the specification puts a percent-decoding step
  before the steps of the decoder. \<open>percent_decode_first decoder\<close> is that pipeline: it
  percent-decodes the transport string and gives the result to \<open>decoder\<close>.
\<close>

definition percent_decode_first :: "(utf16 \<Rightarrow> error + 'a) \<Rightarrow> utf16 \<Rightarrow> error + 'a" where
  "percent_decode_first decoder s =
     (case decodeURIComponent s of
        Inl e \<Rightarrow> Inl e
      | Inr decoded \<Rightarrow> decoder decoded)"

text \<open>The characters that the specification allows in a transport string: \<^verbatim>\<open>[A-Za-z0-9%.\-_~]\<close>.\<close>

definition urlQuerySafe :: "nat \<Rightarrow> bool" where
  "urlQuerySafe c =
     ((65 \<le> c \<and> c \<le> 90) \<or> (97 \<le> c \<and> c \<le> 122) \<or> (48 \<le> c \<and> c \<le> 57)
      \<or> c \<in> set [37, 46, 45, 95, 126])"

section \<open>A reference library for the examples\<close>

text \<open>
  The examples need the library functions at concrete inputs. The reference inflater
  decodes the raw deflate streams that consist of one final stored block (RFC 1951, block
  type 00: the byte 01, the length and its complement in two bytes each, then the data),
  as every inflater does, and rejects every other stream. The Java call writes at most as
  many bytes as its array holds.
\<close>

definition stored_block :: "byte list \<Rightarrow> byte list" where
  "stored_block bs =
     [1, of_nat (length bs mod 256), of_nat (length bs div 256),
      of_nat (255 - length bs mod 256), of_nat (255 - length bs div 256)] @ bs"

definition inflate_stored :: "byte list \<Rightarrow> byte list option" where
  "inflate_stored zs =
     (case zs of
        h # l0 # l1 # n0 # n1 # payload \<Rightarrow>
          if h = 1 \<and> unat l0 + 256 * unat l1 = length payload
             \<and> unat n0 = 255 - unat l0 \<and> unat n1 = 255 - unat l1
          then Some payload else None
      | _ \<Rightarrow> None)"

text \<open>JSON values, and a parser that knows the empty object and rejects every other text.\<close>

datatype json =
    JNull
  | JBoolean bool
  | JNumber int
  | JString utf16
  | JArray "json list"
  | JObject "(utf16 \<times> json) list"

definition parse_empty_object :: "utf16 \<Rightarrow> json option" where
  "parse_empty_object t =
     (if filter (\<lambda>c. c \<notin> set [32, 9, 10, 13]) t = lit ''{}'' then Some (JObject []) else None)"

definition ascii_text :: "byte list \<Rightarrow> utf16" where
  "ascii_text bs = map unat bs"

definition ref_node_lib :: "json node_lib" where
  "ref_node_lib =
     \<lparr>inflateRawSync = inflate_stored, toString_utf8 = ascii_text,
      JSON_parse = parse_empty_object\<rparr>"

definition ref_groovy_lib :: "json groovy_lib" where
  "ref_groovy_lib =
     \<lparr>Inflater_inflate = (\<lambda>input n. map_option (take n) (inflate_stored input)),
      new_String_utf8 = ascii_text, parseText_as_Map = parse_empty_object\<rparr>"




text \<open>
  A serialiser for the payload record, and a stand-in for the archive writer that stores
  the name and the content of the entry behind the signature bytes of the format.
\<close>

definition json_escape :: "char \<Rightarrow> utf16" where
  "json_escape c =
     (if c = CHR 0x22 then [92, 34]
      else if c = CHR 0x5C then [92, 92]
      else if c = CHR 0x08 then [92, 98]
      else if c = CHR 0x0C then [92, 102]
      else if c = CHR 0x0A then [92, 110]
      else if c = CHR 0x0D then [92, 114]
      else if c = CHR 0x09 then [92, 116]
      else if (of_char c :: nat) < 32 then
        [92, 117, 48, 48, 48 + of_char c div 16,
          (if (of_char c :: nat) mod 16 < 10 then 48 + of_char c mod 16
           else 87 + of_char c mod 16)]
      else [of_char c])"

definition json_quote :: "string \<Rightarrow> utf16" where
  "json_quote s = [34] @ concat (map json_escape s) @ [34]"

fun json_members :: "(string \<times> utf16) list \<Rightarrow> utf16" where
  "json_members [] = []"
| "json_members [(k, v)] = json_quote k @ [58] @ v"
| "json_members ((k, v) # kvs) = json_quote k @ [58] @ v @ [44] @ json_members kvs"

definition json_object :: "(string \<times> utf16) list \<Rightarrow> utf16" where
  "json_object kvs = [123] @ json_members kvs @ [125]"

definition stringify_payload :: "DebugPayload \<Rightarrow> utf16" where
  "stringify_payload x =
     json_object
       [(''currentSessionType'', json_quote (currentSessionType x)),
        (''scriptInput'', json_quote (scriptInput x)),
        (''script'', json_quote (script x)),
        (''functionName'', json_quote (functionName x)),
        (''headers'', json_object (map (\<lambda>(k, v). (k, json_quote v)) (headers x))),
        (''properties'', json_object (map (\<lambda>(k, v). (k, json_quote v)) (properties x)))]"

definition zip_signature :: "byte list" where
  "zip_signature = [0x50, 0x4B, 0x03, 0x04]"

definition ref_zip :: "nat \<Rightarrow> nat \<Rightarrow> utf16 \<Rightarrow> nat \<Rightarrow> utf16 \<Rightarrow> byte list" where
  "ref_zip level archive_date name entry_date content =
     zip_signature @ [of_nat (length name)] @ map of_nat name @ map of_nat content"

definition ref_unzip :: "byte list \<Rightarrow> utf16 \<Rightarrow> utf16 option" where
  "ref_unzip archive name =
     (case archive of
        a # b # c # d # n # rest \<Rightarrow>
          if [a, b, c, d] = zip_signature \<and> map unat (take (unat n) rest) = name
          then Some (map unat (drop (unat n) rest)) else None
      | _ \<Rightarrow> None)"

text \<open>
  The gzip format (RFC 1952). A member is a header of ten bytes (the magic bytes \<open>1f 8b\<close>,
  the method 8, the flags, the modification time in four bytes, the extra flags and the
  operating system), a raw deflate stream, and a trailer of eight bytes: the CRC-32 of the
  uncompressed data and its length modulo \<open>2\<^sup>3\<^sup>2\<close>, both with the least significant byte
  first. The CRC-32 is computed bit by bit with the reflected polynomial \<open>edb88320\<close>; the
  register starts as \<open>ffffffff\<close> and is complemented at the end.
\<close>

unbundle bit_operations_syntax

definition crc32_bit :: "32 word \<Rightarrow> 32 word" where
  "crc32_bit c = (if bit c 0 then drop_bit 1 c XOR 0xEDB88320 else drop_bit 1 c)"

definition crc32_byte :: "32 word \<Rightarrow> byte \<Rightarrow> 32 word" where
  "crc32_byte c b = (crc32_bit ^^ 8) (c XOR ucast b)"

definition crc32 :: "byte list \<Rightarrow> 32 word" where
  "crc32 bs = foldl crc32_byte 0xFFFFFFFF bs XOR 0xFFFFFFFF"

definition le32 :: "32 word \<Rightarrow> byte list" where
  "le32 w = [ucast w, ucast (drop_bit 8 w), ucast (drop_bit 16 w), ucast (drop_bit 24 w)]"

definition gzip_header :: "nat \<Rightarrow> byte list" where
  "gzip_header mtime =
     [0x1F, 0x8B, 8, 0, of_nat mtime, of_nat (mtime div 256), of_nat (mtime div 65536),
      of_nat (mtime div 16777216), 0, 3]"

text \<open>
  The reference writer makes the member whose deflate stream is one final stored block. It
  takes inputs below 65536 bytes, the most that the length field of one stored block
  counts. The reference reader accepts the members without optional header fields whose
  deflate stream is one final stored block and whose trailer holds the CRC-32 and the
  length of the data of that block, as every gzip reader does, and rejects every other
  input.
\<close>

definition ref_gzip :: "nat \<Rightarrow> byte list \<Rightarrow> byte list option" where
  "ref_gzip mtime input =
     (if length input < 65536
      then Some (gzip_header mtime @ stored_block input
                 @ le32 (crc32 input) @ le32 (of_nat (length input)))
      else None)"

definition ref_gunzip :: "byte list \<Rightarrow> byte list option" where
  "ref_gunzip member =
     (case member of
        id1 # id2 # cm # flg # m0 # m1 # m2 # m3 # xfl # os # rest \<Rightarrow>
          if id1 = 0x1F \<and> id2 = 0x8B \<and> cm = 8 \<and> flg = 0 \<and> 8 \<le> length rest
          then (case inflate_stored (take (length rest - 8) rest) of
                  Some output \<Rightarrow>
                    if drop (length rest - 8) rest
                         = le32 (crc32 output) @ le32 (of_nat (length output))
                    then Some output else None
                | None \<Rightarrow> None)
          else None
      | _ \<Rightarrow> None)"

definition ref_encoder_lib :: "DebugPayload encoder_lib" where
  "ref_encoder_lib =
     \<lparr>JSON_stringify = (\<lambda>x. Some (stringify_payload x)),
      archiver_zip = (\<lambda>level archive_date name entry_date content.
                        Some (ref_zip level archive_date name entry_date content)),
      gzipSync = ref_gzip\<rparr>"

section \<open>Properties\<close>

subsection \<open>Padding\<close>

lemma mod4_cases: "(L::nat) mod 4 = 0 \<or> L mod 4 = 1 \<or> L mod 4 = 2 \<or> L mod 4 = 3"
proof -
  have "L mod 4 < 4" by simp
  then show ?thesis by linarith
qed

lemma paddingNeeded_le: "paddingNeeded L \<le> 3"
proof -
  have "(4 - L mod 4) mod 4 < 4" by simp
  then show ?thesis unfolding paddingNeeded_def by linarith
qed

lemma paddingNeeded_mod: "(L + paddingNeeded L) mod 4 = 0"
proof -
  have "(L + paddingNeeded L) mod 4 = (L mod 4 + paddingNeeded L) mod 4"
    by (simp add: mod_add_left_eq)
  also have "\<dots> = 0"
    using mod4_cases [of L] unfolding paddingNeeded_def by auto
  finally show ?thesis .
qed

lemma paddingNeeded_mult4: "paddingNeeded (4 * k) = 0"
  unfolding paddingNeeded_def by simp

lemma restorePadding_length:
  "length (restorePadding s) = length s + paddingNeeded (length s)"
  unfolding restorePadding_def by simp

lemma restorePadding_noop: "paddingNeeded (length s) = 0 \<Longrightarrow> restorePadding s = s"
  unfolding restorePadding_def by simp

subsection \<open>Base64\<close>

lemma b64char_bound: "i < 64 \<Longrightarrow> b64char i < 123"
  by (auto simp: b64char_def)

lemma unbase64_b64char: "i < 64 \<Longrightarrow> unbase64 (b64char i) = Some i"
  by (auto simp: b64char_def unbase64_def)

lemma fromBase64_b64char: "i < 64 \<Longrightarrow> fromBase64 (b64char i) = Some i"
  by (auto simp: b64char_def fromBase64_def)

lemma b64char_not_special:
  "i < 64 \<Longrightarrow> b64char i \<noteq> 61 \<and> b64char i \<noteq> 45 \<and> b64char i \<noteq> 95 \<and> b64char i \<noteq> 37"
  by (auto simp: b64char_def)

lemma byte_256: "(256 :: byte) = 0"
  by simp

lemma byte_of_nat_256: "(of_nat (k * 256 + n) :: byte) = of_nat n"
  by (simp add: byte_256)

lemma sextets_bytes_sextets3:
  "sextets_bytes (sextets3 a b c @ rest) = a # b # c # sextets_bytes rest"
proof -
  have ua: "unat a < 256" and ub: "unat b < 256" and uc: "unat c < 256"
    using unsigned_less [of a, where ?'a = nat] unsigned_less [of b, where ?'a = nat] unsigned_less [of c, where ?'a = nat] by simp_all
  have 1: "unat a div 4 * 4 + (unat a mod 4 * 16 + unat b div 16) div 16 = unat a"
    using ua ub by simp
  have 2: "(unat a mod 4 * 16 + unat b div 16) * 16 + (unat b mod 16 * 4 + unat c div 64) div 4
         = unat a mod 4 * 256 + unat b"
    using ub uc by simp
  have 3: "(unat b mod 16 * 4 + unat c div 64) * 64 + unat c mod 64 = unat b mod 16 * 256 + unat c"
    using uc by simp
  have b1: "(of_nat (unat a div 4 * 4 + (unat a mod 4 * 16 + unat b div 16) div 16) :: byte) = a"
    by (simp only: 1) simp
  have b2: "(of_nat ((unat a mod 4 * 16 + unat b div 16) * 16
               + (unat b mod 16 * 4 + unat c div 64) div 4) :: byte) = b"
    by (simp only: 2 byte_of_nat_256) simp
  have b3: "(of_nat ((unat b mod 16 * 4 + unat c div 64) * 64 + unat c mod 64) :: byte) = c"
    by (simp only: 3 byte_of_nat_256) simp
  show ?thesis
    unfolding sextets3_def by (simp only: append_Cons append_Nil sextets_bytes.simps b1 b2 b3)
qed

lemma sextets3_bound: "v \<in> set (sextets3 a b c) \<Longrightarrow> v < 64"
proof -
  have ua: "unat a < 256" and ub: "unat b < 256" and uc: "unat c < 256"
    using unsigned_less [of a, where ?'a = nat] unsigned_less [of b, where ?'a = nat]
      unsigned_less [of c, where ?'a = nat] by simp_all
  have "unat a div 4 < 64" using ua by simp
  moreover have "unat a mod 4 * 16 + unat b div 16 < 64"
  proof -
    have "unat a mod 4 \<le> 3" by simp
    moreover have "unat b div 16 \<le> 15" using ub by simp
    ultimately show ?thesis by linarith
  qed
  moreover have "unat b mod 16 * 4 + unat c div 64 < 64"
  proof -
    have "unat b mod 16 \<le> 15" by simp
    moreover have "unat c div 64 \<le> 3" using uc by simp
    ultimately show ?thesis by linarith
  qed
  moreover have "unat c mod 64 < 64" by simp
  ultimately show "v \<in> set (sextets3 a b c) \<Longrightarrow> v < 64"
    unfolding sextets3_def by auto
qed

lemma sextets_bytes_pair: "sextets_bytes (take 2 (sextets3 a 0 0)) = [a]"
proof -
  have "(of_nat (unat a div 4 * 4 + (unat a mod 4 * 16) div 16) :: byte) = a"
    by simp
  then show ?thesis unfolding sextets3_def by simp
qed

lemma sextets_bytes_triple: "sextets_bytes (take 3 (sextets3 a b 0)) = [a, b]"
proof -
  have ub: "unat b < 256"
    using unsigned_less [of b, where ?'a = nat] by simp
  have 1: "unat a div 4 * 4 + (unat a mod 4 * 16 + unat b div 16) div 16 = unat a"
    using ub by simp
  have 2: "(unat a mod 4 * 16 + unat b div 16) * 16 + (unat b mod 16 * 4) div 4
         = unat a mod 4 * 256 + unat b"
    by simp
  have b1: "(of_nat (unat a div 4 * 4 + (unat a mod 4 * 16 + unat b div 16) div 16) :: byte) = a"
    by (simp only: 1) simp
  have b2: "(of_nat ((unat a mod 4 * 16 + unat b div 16) * 16 + (unat b mod 16 * 4) div 4) :: byte) = b"
    by (simp only: 2 byte_of_nat_256) simp
  show ?thesis
    unfolding sextets3_def using b1 b2 by simp
qed


lemma sextets_bytes_sextets: "sextets_bytes (sextets bs) = bs"
proof (induction bs rule: sextets.induct)
  case (1 a b c rest)
  then show ?case by (simp add: sextets_bytes_sextets3)
next
  case (2 a b)
  show ?case using sextets_bytes_triple [of a b] by simp
next
  case (3 a)
  show ?case using sextets_bytes_pair [of a] by simp
next
  case 4
  show ?case by simp
qed

lemma sextets_bound: "v \<in> set (sextets bs) \<Longrightarrow> v < 64"
proof (induction bs arbitrary: v rule: sextets.induct)
  case (1 a b c rest)
  then show ?case using sextets3_bound [of v a b c] by auto
next
  case (2 a b)
  then have "v \<in> set (sextets3 a b 0)" by (auto dest: in_set_takeD)
  then show ?case by (rule sextets3_bound)
next
  case (3 a)
  then have "v \<in> set (sextets3 a 0 0)" by (auto dest: in_set_takeD)
  then show ?case by (rule sextets3_bound)
next
  case 4
  then show ?case by simp
qed

lemma length_sextets3 [simp]: "length (sextets3 a b c) = 4"
  by (simp add: sextets3_def)

lemma length_sextets:
  "length (sextets bs) = 4 * (length bs div 3) + (if length bs mod 3 = 0 then 0 else length bs mod 3 + 1)"
proof (induction bs rule: sextets.induct)
  case (1 a b c rest)
  have "length (a # b # c # rest) = length rest + 3" by simp
  then have d: "length (a # b # c # rest) div 3 = length rest div 3 + 1"
    and m: "length (a # b # c # rest) mod 3 = length rest mod 3"
    by simp_all
  show ?case using 1 by (simp only: d m sextets.simps length_append length_sextets3) simp
qed simp_all

lemma length_toString_base64: "length (toString_base64 bs) mod 4 = 0"
proof -
  have "length bs mod 3 = 0 \<or> length bs mod 3 = 1 \<or> length bs mod 3 = 2"
  proof -
    have "length bs mod 3 < 3" by simp
    then show ?thesis by linarith
  qed
  then show ?thesis
    unfolding toString_base64_def by (auto simp: length_sextets)
qed

lemma node_sextets_data:
  "\<forall>v\<in>set vs. v < 64 \<Longrightarrow> node_sextets (map b64char vs @ rest) = vs @ node_sextets rest"
proof (induction vs)
  case Nil
  show ?case by simp
next
  case (Cons v vs)
  then have v: "v < 64" by simp
  then have "b64char v mod 256 = b64char v"
    using b64char_bound [of v] by simp
  then show ?case using Cons v by (simp add: unbase64_b64char)
qed

lemma node_sextets_padding: "node_sextets (replicate k 61 @ rest) = (if k = 0 then node_sextets rest else [])"
  by (cases k) (simp_all add: unbase64_def)

lemma Buffer_from_base64_text:
  "\<forall>v\<in>set vs. v < 64 \<Longrightarrow> 0 < k \<or> rest = []
    \<Longrightarrow> Buffer_from_base64 (map b64char vs @ replicate k 61 @ rest) = sextets_bytes vs"
  unfolding Buffer_from_base64_def
  by (auto simp: node_sextets_data node_sextets_padding)

lemma Buffer_from_base64_toString: "Buffer_from_base64 (toString_base64 bs) = bs"
  unfolding toString_base64_def
  using Buffer_from_base64_text [of "sextets bs" _ "[]"] sextets_bound [of _ bs]
  by (simp add: sextets_bytes_sextets)

lemma decode0_group:
  "p < 64 \<Longrightarrow> q < 64 \<Longrightarrow> r < 64 \<Longrightarrow> s < 64 \<Longrightarrow>
   decode0 [] (b64char p # b64char q # b64char r # b64char s # rest) =
     (case decode0 [] rest of Inl e \<Rightarrow> Inl e
      | Inr out \<Rightarrow> Inr (sextets_bytes [p, q, r, s] @ out))"
  by (simp add: fromBase64_b64char split: sum.split)

lemma decode0_padding:
  "decode0 g (replicate k 61) =
     (if (length g = 0 \<and> k = 0) \<or> (length g = 2 \<and> (k = 0 \<or> k = 2))
         \<or> (length g = 3 \<and> (k = 0 \<or> k = 1)) \<or> (3 < length g \<and> k \<le> 1)
      then Inr (sextets_bytes g) else Inl (DecodeError Base64Decoding))"
proof -
  have L: "g = [] \<or> length g = 1 \<or> length g = 2 \<or> length g = 3 \<or> 3 < length g"
  proof (cases g)
    case Nil
    then show ?thesis by simp
  next
    case (Cons a list)
    have "length list = 0 \<or> length list = 1 \<or> length list = 2 \<or> 2 < length list"
      by linarith
    then show ?thesis using Cons by auto
  qed
  consider "k = 0" | "k = 1" | "k = 2" | j where "k = Suc (Suc (Suc j))"
    by (metis One_nat_def Suc_1 not0_implies_Suc)
  then show ?thesis
  proof cases
    case 1
    then show ?thesis using L by (auto simp: decode0_end_def)
  next
    case 2
    then show ?thesis using L by (auto simp: decode0_end_def fromBase64_def)
  next
    case 3
    then show ?thesis using L by (auto simp: decode0_end_def fromBase64_def numeral_2_eq_2)
  next
    case 4
    then show ?thesis using L by (auto simp: decode0_end_def fromBase64_def)
  qed
qed

lemma decode0_short:
  "p < 64 \<Longrightarrow> decode0 [] (b64char p # replicate k 61) = decode0 [p] (replicate k 61)"
  "p < 64 \<Longrightarrow> q < 64 \<Longrightarrow>
     decode0 [] (b64char p # b64char q # replicate k 61) = decode0 [p, q] (replicate k 61)"
  "p < 64 \<Longrightarrow> q < 64 \<Longrightarrow> r < 64 \<Longrightarrow>
     decode0 [] (b64char p # b64char q # b64char r # replicate k 61)
       = decode0 [p, q, r] (replicate k 61)"
  by (simp_all add: fromBase64_b64char)

lemma decode0_text:
  "\<forall>v\<in>set vs. v < 64 \<Longrightarrow>
   decode0 [] (map b64char vs @ replicate k 61) =
     (if (length vs mod 4 = 0 \<and> k = 0) \<or> (length vs mod 4 = 2 \<and> (k = 0 \<or> k = 2))
         \<or> (length vs mod 4 = 3 \<and> (k = 0 \<or> k = 1))
      then Inr (sextets_bytes vs) else Inl (DecodeError Base64Decoding))"
proof (induction vs rule: sextets_bytes.induct)
  case (1 p q r s rest)
  then have b: "p < 64" "q < 64" "r < 64" "s < 64" and rest: "\<forall>v\<in>set rest. v < 64"
    by simp_all
  have m: "length (p # q # r # s # rest) mod 4 = length rest mod 4"
    by simp
  show ?case
    using 1(1) [OF rest] decode0_group [OF b, of "map b64char rest @ replicate k 61"]
    by (simp only: m list.map append_Cons) (simp split: sum.split)
next
  case (2 p q r)
  then show ?case by (simp add: decode0_short decode0_padding del: decode0.simps)
next
  case (3 p q)
  then show ?case by (simp add: decode0_short decode0_padding del: decode0.simps)
next
  case (4 p)
  then show ?case by (simp add: decode0_short decode0_padding del: decode0.simps)
next
  case 5
  then show ?case using decode0_padding [of "[]" k] by simp
qed


subsection \<open>Percent-encoding\<close>

lemma encodeURIComponent_ascii:
  "\<forall>c\<in>set s. c < 128 \<Longrightarrow> encodeURIComponent s = Inr (concat (map percent_form s))"
proof (induction s)
  case Nil
  show ?case by simp
next
  case (Cons c s)
  then have c: "c < 128" and IH: "encodeURIComponent s = Inr (concat (map percent_form s))"
    by simp_all
  have h: "percent_form c = (if uriUnreserved c then [c] else escape c)"
    by (simp add: percent_form_def)
  show ?case using c IH
    by (simp add: h prefixed_def utf8_octets_def)
qed

lemma unhex_hexDigit: "n < 16 \<Longrightarrow> unhex (hexDigit n) = Some n"
  by (auto simp: unhex_def hexDigit_def)

lemma unescape_percent_form:
  assumes "c < 256"
  shows "unescape (percent_form c @ rest) = map_option ((#) (percent_token c)) (unescape rest)"
proof (cases "uriUnreserved c")
  case True
  then have "c \<noteq> 37" by (auto simp: uriUnreserved_def)
  then show ?thesis using True by (simp add: percent_form_def percent_token_def)
next
  case False
  have d: "c div 16 < 16" using assms by simp
  have m: "c mod 16 < 16" by simp
  have "16 * (c div 16) + c mod 16 = c" by simp
  then show ?thesis using False
    by (simp add: percent_form_def percent_token_def escape_def unhex_hexDigit [OF d]
        unhex_hexDigit [OF m])
qed

lemma unescape_percent_forms:
  "\<forall>c\<in>set s. c < 256 \<Longrightarrow> unescape (concat (map percent_form s)) = Some (map percent_token s)"
proof (induction s)
  case Nil
  show ?case by simp
next
  case (Cons c s)
  then show ?case using unescape_percent_form [of c "concat (map percent_form s)"] by simp
qed

lemma decode_octets_percent_tokens:
  "\<forall>c\<in>set s. c < 128 \<Longrightarrow> decode_octets (map percent_token s) = Some s"
  by (induction s) (auto simp: percent_token_def)

lemma decodeURIComponent_percent_forms:
  assumes "\<forall>c\<in>set s. c < 128"
  shows "decodeURIComponent (concat (map percent_form s)) = Inr s"
proof -
  have "\<forall>c\<in>set s. c < 256" using assms by auto
  then show ?thesis
    unfolding decodeURIComponent_def
    by (simp add: unescape_percent_forms decode_octets_percent_tokens [OF assms])
qed

lemma decodeURIComponent_plain:
  assumes "37 \<notin> set s"
  shows "decodeURIComponent s = Inr s"
proof -
  have 1: "unescape s = Some (map Plain s)" using assms by (induction s) auto
  have 2: "decode_octets (map Plain s) = Some s" by (induction s) auto
  show ?thesis unfolding decodeURIComponent_def by (simp add: 1 2)
qed

subsection \<open>The ZIP variant and the reference library\<close>

lemma toString_base64_chars:
  "\<forall>c\<in>set (toString_base64 bs). (\<exists>v<64. c = b64char v) \<or> c = 61"
proof
  fix c assume "c \<in> set (toString_base64 bs)"
  then have "c \<in> b64char ` set (sextets bs) \<or> c = 61"
    unfolding toString_base64_def by auto
  then show "(\<exists>v<64. c = b64char v) \<or> c = 61"
    using sextets_bound [of _ bs] by blast
qed

lemma toString_base64_ascii: "\<forall>c\<in>set (toString_base64 bs). c < 128"
proof
  fix c assume "c \<in> set (toString_base64 bs)"
  then have "(\<exists>v<64. c = b64char v) \<or> c = 61"
    using toString_base64_chars [of bs] by blast
  then show "c < 128"
  proof
    assume "\<exists>v<64. c = b64char v"
    then obtain v where "v < 64" "c = b64char v" by blast
    then show ?thesis using b64char_bound [of v] by simp
  next
    assume "c = 61"
    then show ?thesis by simp
  qed
qed

lemma toString_base64_standard:
  "45 \<notin> set (toString_base64 bs)" "95 \<notin> set (toString_base64 bs)"
proof -
  have "\<forall>c\<in>set (toString_base64 bs). c \<noteq> 45 \<and> c \<noteq> 95"
  proof
    fix c assume "c \<in> set (toString_base64 bs)"
    then have "(\<exists>v<64. c = b64char v) \<or> c = 61"
      using toString_base64_chars [of bs] by blast
    then show "c \<noteq> 45 \<and> c \<noteq> 95"
    proof
      assume "\<exists>v<64. c = b64char v"
      then obtain v where "v < 64" "c = b64char v" by blast
      then show ?thesis using b64char_not_special [of v] by simp
    next
      assume "c = 61"
      then show ?thesis by simp
    qed
  qed
  then show "45 \<notin> set (toString_base64 bs)" "95 \<notin> set (toString_base64 bs)"
    by blast+
qed

lemma toStandardBase64_id: "45 \<notin> set s \<Longrightarrow> 95 \<notin> set s \<Longrightarrow> toStandardBase64 s = s"
  unfolding toStandardBase64_def replaceAll_def by (induction s) auto

lemma restorePadding_toString_base64: "restorePadding (toString_base64 bs) = toString_base64 bs"
  using length_toString_base64 [of bs] by (simp add: restorePadding_def paddingNeeded_def)

lemma encodeContivaData_form:
  assumes "JSON_stringify lib x = Some json"
    and "archiver_zip lib 9 0 (lit ''data.json'') 0 json = Some archive"
    and "gzipSync lib 0 archive = Some compressed"
  shows "encodeContivaData lib now x = Inr (concat (map percent_form (toString_base64 compressed)))"
proof -
  have "encodeContivaData lib now x = encodeURIComponent (toString_base64 compressed)"
    unfolding encodeContivaData_def Let_def stamp_def
    by (simp add: assms restorePadding_toString_base64)
  then show ?thesis
    by (simp only: encodeURIComponent_ascii [OF toString_base64_ascii])
qed

lemma decodeContivaData_percent_forms:
  "decodeContivaData gunzipSync (concat (map percent_form (toString_base64 bs))) =
     (case gunzipSync bs of
        None \<Rightarrow> Inl (DecodeError Decompression)
      | Some decompressed \<Rightarrow>
          Inr \<lparr>zipBuffer = decompressed,
               message = ''This is a ZIP archive. Extract with a ZIP tool or use the archiver library to read.''\<rparr>)"
proof -
  have 1: "decodeURIComponent (concat (map percent_form (toString_base64 bs)))
            = Inr (toString_base64 bs)"
    by (rule decodeURIComponent_percent_forms [OF toString_base64_ascii])
  have 2: "toStandardBase64 (toString_base64 bs) = toString_base64 bs"
    by (rule toStandardBase64_id [OF toString_base64_standard])
  show ?thesis
    unfolding decodeContivaData_def Let_def
    by (simp only: 1 2 Buffer_from_base64_toString sum.case)
qed

lemma percent_form_b64char:
  assumes "v < 64"
  shows "list_all urlQuerySafe (percent_form (b64char v))"
proof -
  consider "v < 26" | "26 \<le> v" "v < 52" | "52 \<le> v" "v < 62" | "v = 62" | "v = 63"
    using assms by linarith
  then show ?thesis
  proof cases
    case 1
    then show ?thesis
      by (simp add: b64char_def percent_form_def uriUnreserved_def urlQuerySafe_def)
  next
    case 2
    then show ?thesis
      by (simp add: b64char_def percent_form_def uriUnreserved_def urlQuerySafe_def)
  next
    case 3
    then have "b64char v = v - 4" "48 \<le> v - 4" "v - 4 \<le> 57"
      by (simp_all add: b64char_def)
    then show ?thesis
      by (simp add: percent_form_def uriUnreserved_def urlQuerySafe_def)
  next
    case 4
    then show ?thesis
      by (simp add: b64char_def percent_form_def uriUnreserved_def urlQuerySafe_def
          escape_def hexDigit_def)
  next
    case 5
    then show ?thesis
      by (simp add: b64char_def percent_form_def uriUnreserved_def urlQuerySafe_def
          escape_def hexDigit_def)
  qed
qed

lemma percent_form_pad: "list_all urlQuerySafe (percent_form 61)"
  by (simp add: percent_form_def uriUnreserved_def urlQuerySafe_def escape_def hexDigit_def)

lemma percent_forms_safe:
  "\<forall>c\<in>set s. (\<exists>v<64. c = b64char v) \<or> c = 61 \<Longrightarrow>
   list_all urlQuerySafe (concat (map percent_form s))"
proof (induction s)
  case Nil
  show ?case by simp
next
  case (Cons c s)
  then have "(\<exists>v<64. c = b64char v) \<or> c = 61" by simp
  then have "list_all urlQuerySafe (percent_form c)"
    using percent_form_b64char percent_form_pad by blast
  then show ?case using Cons by simp
qed

lemma ref_zip_magic: "take 4 (ref_zip level d name e content) = [0x50, 0x4B, 0x03, 0x04]"
  by (simp add: ref_zip_def zip_signature_def)

lemma map_unat_of_nat:
  "\<forall>u\<in>set t. u < 256 \<Longrightarrow> map unat (map of_nat t :: byte list) = t"
proof (induction t)
  case Nil
  show ?case by simp
next
  case (Cons u t)
  then have "u < 256" by simp
  then have "unat (of_nat u :: byte) = u"
    by (simp add: unat_of_nat take_bit_nat_eq_self)
  then show ?case using Cons by simp
qed

lemma ref_unzip_ref_zip:
  assumes "length name < 256" "\<forall>u\<in>set name. u < 256" "\<forall>u\<in>set content. u < 256"
  shows "ref_unzip (ref_zip level d name e content) name = Some content"
proof -
  have n: "unat (of_nat (length name) :: byte) = length name"
    using assms(1) by (simp add: unat_of_nat take_bit_nat_eq_self)
  show ?thesis
    unfolding ref_unzip_def ref_zip_def zip_signature_def
    using n map_unat_of_nat [OF assms(2)] map_unat_of_nat [OF assms(3)]
    by simp
qed

lemma example_text_units: "list_all (\<lambda>u. u < 256) (stringify_payload contivaExample)"
  by code_simp

subsection \<open>Wire forms\<close>









lemma toStandardBase64_idem: "toStandardBase64 (toStandardBase64 s) = toStandardBase64 s"
  unfolding toStandardBase64_def replaceAll_def by (induction s) auto



subsection \<open>The strict and the lenient base64 decoder\<close>




lemma decode0_valid:
  "fromBase64 c = Some v \<Longrightarrow>
   decode0 g (c # cs) =
     (if length g = 3
      then (case decode0 [] cs of Inl e \<Rightarrow> Inl e
            | Inr out \<Rightarrow> Inr (sextets_bytes (g @ [v]) @ out))
      else decode0 (g @ [v]) cs)"
  by simp

lemma decode0_invalid:
  "fromBase64 c = None \<Longrightarrow> c \<noteq> 61 \<Longrightarrow> decode0 g (c # cs) = Inl (DecodeError Base64Decoding)"
  by simp




subsection \<open>Padding seen by the strict decoder\<close>

lemma unbase64_standard_char:
  assumes "unbase64 c = Some v"
  shows "(if (if c = 45 then 43 else c) = 95 then 47 else (if c = 45 then 43 else c)) = b64char v"
    and "v < 64"
proof -
  have r: "(65 \<le> c \<and> c \<le> 90 \<and> v = c - 65) \<or> (97 \<le> c \<and> c \<le> 122 \<and> v = c - 71)
      \<or> (48 \<le> c \<and> c \<le> 57 \<and> v = c + 4) \<or> ((c = 43 \<or> c = 45) \<and> v = 62)
      \<or> ((c = 47 \<or> c = 95) \<and> v = 63)"
    using assms unfolding unbase64_def by (simp split: if_splits)
  then show "v < 64" by linarith
  from r show "(if (if c = 45 then 43 else c) = 95 then 47 else (if c = 45 then 43 else c)) = b64char v"
    unfolding b64char_def by auto
qed

lemma toStandardBase64_body:
  "\<forall>c\<in>set body. unbase64 c \<noteq> None \<Longrightarrow>
   toStandardBase64 body = map b64char (map (\<lambda>c. the (unbase64 c)) body)
   \<and> (\<forall>v\<in>set (map (\<lambda>c. the (unbase64 c)) body). v < 64)"
proof (induction body)
  case Nil
  show ?case by (simp add: toStandardBase64_def replaceAll_def)
next
  case (Cons c body)
  then obtain v where v: "unbase64 c = Some v" by auto
  have IH: "toStandardBase64 body = map b64char (map (\<lambda>c. the (unbase64 c)) body)"
    "\<forall>v\<in>set (map (\<lambda>c. the (unbase64 c)) body). v < 64"
    using Cons by simp_all
  have "toStandardBase64 (c # body)
      = (if (if c = 45 then 43 else c) = 95 then 47 else (if c = 45 then 43 else c))
          # toStandardBase64 body"
    by (simp add: toStandardBase64_def replaceAll_def)
  then have "toStandardBase64 (c # body) = b64char v # toStandardBase64 body"
    by (simp only: unbase64_standard_char(1) [OF v])
  then show ?case using IH v unbase64_standard_char(2) [OF v] by simp
qed

lemma toStandardBase64_append:
  "toStandardBase64 (a @ b) = toStandardBase64 a @ toStandardBase64 b"
  by (simp add: toStandardBase64_def replaceAll_def)

lemma toStandardBase64_padding: "toStandardBase64 (replicate k 61) = replicate k 61"
  by (simp add: toStandardBase64_def replaceAll_def)

lemma padded_acceptance:
  "((n mod 4 = 0 \<and> k + paddingNeeded (n + k) = 0)
    \<or> (n mod 4 = 2 \<and> (k + paddingNeeded (n + k) = 0 \<or> k + paddingNeeded (n + k) = 2))
    \<or> (n mod 4 = 3 \<and> (k + paddingNeeded (n + k) = 0 \<or> k + paddingNeeded (n + k) = 1)))
   = (\<not> (n mod 4 = 1 \<or> (n mod 4 = 0 \<and> 0 < k) \<or> (n mod 4 = 2 \<and> 2 < k)
          \<or> (n mod 4 = 3 \<and> 1 < k)))"
proof -
  have m: "(n + k) mod 4 = (n mod 4 + k) mod 4" by (simp add: mod_add_left_eq)
  consider "k = 0" | "k = 1" | "k = 2" | "2 < k" by linarith
  then show ?thesis
  proof cases
    case 1
    then show ?thesis using mod4_cases [of n] by (auto simp: paddingNeeded_def)
  next
    case 2
    then show ?thesis using mod4_cases [of n] m by (auto simp: paddingNeeded_def)
  next
    case 3
    then show ?thesis using mod4_cases [of n] m by (auto simp: paddingNeeded_def)
  next
    case 4
    then show ?thesis using mod4_cases [of n] by auto
  qed
qed

lemma decodeGroovyString_no_base64_error:
  "decodeGroovyString nlib s \<noteq> Inl (DecodeError Base64Decoding)"
  unfolding decodeGroovyString_def Let_def by (simp split: option.split)

lemma decodeGroovyData_after_base64:
  "Base64_decoder_decode (restorePadding (toStandardBase64 s)) = Inr buffer \<Longrightarrow>
   decodeGroovyData glib s \<noteq> Inl (DecodeError Base64Decoding)"
  unfolding decodeGroovyData_def Let_def by (simp split: option.split)

lemma decodeGroovyData_base64_error:
  "Base64_decoder_decode (restorePadding (toStandardBase64 s)) = Inl e \<Longrightarrow>
   decodeGroovyData glib s = Inl e"
  unfolding decodeGroovyData_def Let_def by simp

subsection \<open>The oversized input\<close>

lemma decode0_error: "decode0 g s = Inl e \<Longrightarrow> e = DecodeError Base64Decoding"
proof (induction s arbitrary: g e)
  case Nil
  then show ?case by (simp add: decode0_end_def split: if_splits)
next
  case (Cons c cs)
  show ?case
  proof (cases "fromBase64 c")
    case (Some v)
    note d = decode0_valid [OF Some, of g cs]
    show ?thesis
    proof (cases "length g = 3")
      case True
      with Cons.prems d
      have "(case decode0 [] cs of Inl e \<Rightarrow> Inl e
             | Inr out' \<Rightarrow> Inr (sextets_bytes (g @ [v]) @ out')) = Inl e"
        by (simp del: decode0.simps)
      then have "decode0 [] cs = Inl e"
        by (cases "decode0 [] cs") (simp_all del: decode0.simps)
      then show ?thesis by (rule Cons.IH)
    next
      case False
      with Cons.prems d have "decode0 (g @ [v]) cs = Inl e" by (simp del: decode0.simps)
      then show ?thesis by (rule Cons.IH)
    qed
  next
    case None
    with Cons.prems show ?thesis
      by (auto simp: decode0_end_def split: if_splits list.splits)
  qed
qed




lemma unat_byte_of_nat: "n < 256 \<Longrightarrow> unat (of_nat n :: byte) = n"
  by (simp add: unat_of_nat take_bit_nat_eq_self)

lemma inflate_stored_stored_block:
  assumes "length bs < 65536"
  shows "inflate_stored (stored_block bs) = Some bs"
proof -
  have d: "length bs div 256 < 256" using assms by simp
  have 1: "unat (of_nat (length bs mod 256) :: byte) = length bs mod 256"
    by (rule unat_byte_of_nat) simp
  have 2: "unat (of_nat (length bs div 256) :: byte) = length bs div 256"
    by (rule unat_byte_of_nat [OF d])
  have 3: "unat (of_nat (255 - length bs mod 256) :: byte) = 255 - length bs mod 256"
    by (rule unat_byte_of_nat) simp
  have 4: "unat (of_nat (255 - length bs div 256) :: byte) = 255 - length bs div 256"
    by (rule unat_byte_of_nat) simp
  have "inflate_stored (stored_block bs) =
      (if unat (of_nat (length bs mod 256) :: byte) + 256 * unat (of_nat (length bs div 256) :: byte)
            = length bs
          \<and> unat (of_nat (255 - length bs mod 256) :: byte)
              = 255 - unat (of_nat (length bs mod 256) :: byte)
          \<and> unat (of_nat (255 - length bs div 256) :: byte)
              = 255 - unat (of_nat (length bs div 256) :: byte)
       then Some bs else None)"
    unfolding inflate_stored_def stored_block_def
    by (simp only: append_Cons append_Nil list.case) simp
  then show ?thesis by (simp only: 1 2 3 4) simp
qed






subsection \<open>Percent signs in the deflate variant\<close>

lemma node_sextets_trailing_padding: "node_sextets (t @ replicate k 61) = node_sextets t"
proof (induction t)
  case Nil
  show ?case using node_sextets_padding [of k "[]"] by simp
next
  case (Cons c cs)
  then show ?case by (simp split: option.split)
qed

lemma Buffer_from_base64_restorePadding:
  "Buffer_from_base64 (restorePadding t) = Buffer_from_base64 t"
  unfolding Buffer_from_base64_def restorePadding_def
  by (simp only: node_sextets_trailing_padding)

lemma node_sextets_skips_percent: "node_sextets (filter (\<lambda>c. c \<noteq> 37) t) = node_sextets t"
  by (induction t) (simp_all add: unbase64_def)

lemma toStandardBase64_filter_percent:
  "toStandardBase64 (filter (\<lambda>c. c \<noteq> 37) s) = filter (\<lambda>c. c \<noteq> 37) (toStandardBase64 s)"
  unfolding toStandardBase64_def replaceAll_def by (induction s) auto

lemma decodeGroovyString_skips_percent:
  "decodeGroovyString nlib (filter (\<lambda>c. c \<noteq> 37) s) = decodeGroovyString nlib s"
proof -
  have "Buffer_from_base64 (restorePadding (toStandardBase64 (filter (\<lambda>c. c \<noteq> 37) s)))
      = Buffer_from_base64 (restorePadding (toStandardBase64 s))"
    by (simp only: Buffer_from_base64_restorePadding toStandardBase64_filter_percent)
       (simp only: Buffer_from_base64_def node_sextets_skips_percent)
  then show ?thesis unfolding decodeGroovyString_def Let_def by (simp only:)
qed

lemma decode0_end_accepts: "decode0_end g rest = Inr out \<Longrightarrow> rest = []"
  by (simp add: decode0_end_def split: if_splits)

lemma decode0_accepts_chars:
  "decode0 g t = Inr out \<Longrightarrow> \<forall>c\<in>set t. fromBase64 c \<noteq> None \<or> c = 61"
proof (induction t arbitrary: g out)
  case Nil
  show ?case by simp
next
  case (Cons c cs)
  show ?case
  proof (cases "fromBase64 c")
    case (Some v)
    note d = decode0_valid [OF Some, of g cs]
    have "\<exists>g' out'. decode0 g' cs = Inr out'"
    proof (cases "length g = 3")
      case True
      with d Cons.prems show ?thesis by (auto split: sum.splits)
    next
      case False
      with d Cons.prems show ?thesis by auto
    qed
    then obtain g' out' where "decode0 g' cs = Inr out'" by blast
    from Cons.IH [OF this] Some show ?thesis by simp
  next
    case None
    have c: "c = 61"
    proof (rule ccontr)
      assume "c \<noteq> 61"
      from decode0_invalid [OF None this, of g cs] Cons.prems show False by simp
    qed
    have "cs = [] \<or> cs = [61]"
    proof (cases "length g = 2")
      case True
      with Cons.prems None c show ?thesis
        by (auto split: list.splits if_splits dest: decode0_end_accepts)
    next
      case False
      with Cons.prems None c show ?thesis
        by (auto split: if_splits dest: decode0_end_accepts)
    qed
    with c show ?thesis by auto
  qed
qed

lemma strict_rejects_foreign:
  assumes "c \<in> set t" and "fromBase64 c = None" and "c \<noteq> 61"
  shows "decode0 g t = Inl (DecodeError Base64Decoding)"
proof (cases "decode0 g t")
  case (Inl e)
  with decode0_error [OF Inl] show ?thesis by simp
next
  case (Inr out)
  from decode0_accepts_chars [OF Inr] assms show ?thesis by blast
qed

lemma decodeGroovyData_rejects_percent:
  assumes "37 \<in> set s"
  shows "decodeGroovyData glib s = Inl (DecodeError Base64Decoding)"
proof -
  have "37 \<in> set (toStandardBase64 s)"
    using assms unfolding toStandardBase64_def replaceAll_def by (induction s) auto
  then have m: "37 \<in> set (restorePadding (toStandardBase64 s))"
    unfolding restorePadding_def by simp
  have "Base64_decoder_decode (restorePadding (toStandardBase64 s)) = Inl (DecodeError Base64Decoding)"
    unfolding Base64_decoder_decode_def
    by (rule strict_rejects_foreign [OF m]) (simp_all add: fromBase64_def)
  then show ?thesis by (rule decodeGroovyData_base64_error)
qed

subsection \<open>The gzip members of the reference library\<close>

lemma length_le32: "length (le32 w) = 4"
  by (simp add: le32_def)

lemma ref_gzip_magic:
  assumes "ref_gzip mtime input = Some compressed"
  shows "take 2 compressed = [0x1F, 0x8B]"
  using assms by (auto simp: ref_gzip_def gzip_header_def split: if_splits)

lemma ref_gunzip_ref_gzip:
  assumes "ref_gzip mtime input = Some compressed"
  shows "ref_gunzip compressed = Some input"
proof -
  let ?trailer = "le32 (crc32 input) @ le32 (of_nat (length input))"
  let ?rest = "stored_block input @ ?trailer"
  have small: "length input < 65536"
    using assms by (simp add: ref_gzip_def split: if_splits)
  have c: "compressed = gzip_header mtime @ ?rest"
    using assms by (simp add: ref_gzip_def split: if_splits)
  have l: "length ?rest - 8 = length (stored_block input)"
    by (simp add: length_le32)
  have t: "take (length ?rest - 8) ?rest = stored_block input"
    by (simp only: l) simp
  have d: "drop (length ?rest - 8) ?rest = ?trailer"
    by (simp only: l) simp
  have n: "8 \<le> length ?rest"
    by (simp add: length_le32)
  have i: "inflate_stored (stored_block input) = Some input"
    by (rule inflate_stored_stored_block [OF small])
  have "ref_gunzip (gzip_header mtime @ ?rest) =
      (case inflate_stored (take (length ?rest - 8) ?rest) of
         Some output \<Rightarrow>
           if drop (length ?rest - 8) ?rest = le32 (crc32 output) @ le32 (of_nat (length output))
           then Some output else None
       | None \<Rightarrow> None)"
    using n unfolding ref_gunzip_def gzip_header_def by simp
  also have "\<dots> = Some input"
    by (simp only: t d i option.case) simp
  finally show ?thesis by (simp only: c)
qed

lemma funpow_8: "(f ^^ 8) x = f (f (f (f (f (f (f (f x)))))))"
  by (simp add: eval_nat_numeral)

lemma example_archive_length:
  "length (ref_zip 9 0 (lit ''data.json'') 0 (stringify_payload contivaExample)) < 65536"
proof -
  have "length (stringify_payload contivaExample) < 1000"
    by code_simp
  then show ?thesis by (simp add: ref_zip_def zip_signature_def lit_def)
qed

lemma example_compressed:
  "\<exists>compressed.
     ref_gzip 0 (ref_zip 9 0 (lit ''data.json'') 0 (stringify_payload contivaExample))
       = Some compressed"
  using example_archive_length by (simp add: ref_gzip_def)

section \<open>The claims\<close>

text \<open>
  C1. Round trip of the ZIP variant. Let the document \<open>x\<close> be one that the encoder can
  process: it serialises to \<open>json\<close>, the archive writer makes \<open>archive\<close> of it and gzip
  compresses that. Whenever gunzip undoes this gzip, and the archive holds the text under
  the name \<^verbatim>\<open>data.json\<close>, decodeContivaData applied to the transport string of
  encodeContivaData returns exactly that archive, whose \<^verbatim>\<open>data.json\<close> is the JSON
  serialisation of \<open>x\<close>: base64, padding, percent-encoding and their inverses cancel.
\<close>

theorem zip_variant_roundtrip:
  assumes json: "JSON_stringify lib x = Some json"
    and archive: "archiver_zip lib 9 0 (lit ''data.json'') 0 json = Some archive"
    and gzip: "gzipSync lib 0 archive = Some compressed"
    and gunzip: "gunzipSync' compressed = Some archive"
    and unzip: "unzip archive (lit ''data.json'') = Some json"
  shows "\<exists>encoded decoded.
           encodeContivaData lib now x = Inr encoded
         \<and> decodeContivaData gunzipSync' encoded = Inr decoded
         \<and> zipBuffer decoded = archive
         \<and> unzip (zipBuffer decoded) (lit ''data.json'') = JSON_stringify lib x"
proof -
  let ?encoded = "concat (map percent_form (toString_base64 compressed))"
  let ?decoded = "\<lparr>zipBuffer = archive,
    message = ''This is a ZIP archive. Extract with a ZIP tool or use the archiver library to read.''\<rparr>"
  have 1: "encodeContivaData lib now x = Inr ?encoded"
    by (rule encodeContivaData_form [OF json archive gzip])
  have 2: "decodeContivaData gunzipSync' ?encoded = Inr ?decoded"
    by (simp only: decodeContivaData_percent_forms gunzip option.case)
  have 3: "zipBuffer ?decoded = archive" by simp
  have 4: "unzip (zipBuffer ?decoded) (lit ''data.json'') = JSON_stringify lib x"
    using unzip json by (simp only: 3)
  show ?thesis using 1 2 3 4 by blast
qed

theorem zip_variant_roundtrip_witness:
  "\<exists>encoded decoded.
     encodeContivaData ref_encoder_lib 1768407316206 contivaExample = Inr encoded
   \<and> decodeContivaData ref_gunzip encoded = Inr decoded
   \<and> zipBuffer decoded = ref_zip 9 0 (lit ''data.json'') 0 (stringify_payload contivaExample)
   \<and> ref_unzip (zipBuffer decoded) (lit ''data.json'') = Some (stringify_payload contivaExample)"
proof -
  let ?json = "stringify_payload contivaExample"
  let ?archive = "ref_zip 9 0 (lit ''data.json'') 0 ?json"
  have j: "JSON_stringify ref_encoder_lib contivaExample = Some ?json"
    by (simp add: ref_encoder_lib_def)
  have a: "archiver_zip ref_encoder_lib 9 0 (lit ''data.json'') 0 ?json = Some ?archive"
    by (simp add: ref_encoder_lib_def)
  obtain compressed where c: "ref_gzip 0 ?archive = Some compressed"
    using example_compressed by blast
  have z: "gzipSync ref_encoder_lib 0 ?archive = Some compressed"
    using c by (simp add: ref_encoder_lib_def)
  have g: "ref_gunzip compressed = Some ?archive"
    by (rule ref_gunzip_ref_gzip [OF c])
  have "\<forall>u\<in>set ?json. u < 256"
    using example_text_units by (simp add: list_all_iff)
  then have u: "ref_unzip ?archive (lit ''data.json'') = Some ?json"
    by (simp add: ref_unzip_ref_zip lit_def)
  show ?thesis
    using zip_variant_roundtrip [of ref_encoder_lib contivaExample ?json ?archive
        compressed ref_gunzip ref_unzip 1768407316206, OF j a z g u] j
    by simp
qed

text \<open>
  C2. Two calls of encodeContivaData on the same document give the same transport string,
  or fail alike, whatever the wall clocks \<open>now\<close> and \<open>now'\<close> of the two calls: the dates of
  the archive and of its entry and the modification time of the gzip header are the
  constant 0, so the clock is never read.
\<close>

theorem encode_deterministic:
  "encodeContivaData lib now x = encodeContivaData lib now' x
   \<and> encodeContivaData lib now x =
       (case JSON_stringify lib x of
          None \<Rightarrow> Inl EncodeError
        | Some json \<Rightarrow>
            (case archiver_zip lib 9 0 (lit ''data.json'') 0 json of
               None \<Rightarrow> Inl EncodeError
             | Some archive \<Rightarrow>
                 (case gzipSync lib 0 archive of
                    None \<Rightarrow> Inl EncodeError
                  | Some compressed \<Rightarrow> encodeURIComponent (toString_base64 compressed))))"
  unfolding encodeContivaData_def Let_def stamp_def
  by (simp add: restorePadding_toString_base64 split: option.split)




text \<open>
  C4. The example document of contiva-encoder.js. With a gzip that starts its output with
  \<open>1f 8b\<close> and is undone by gunzip, and an archive writer that starts with the local file
  header signature \<open>50 4b 03 04\<close>, the encoded string has only characters of
  \<^verbatim>\<open>[A-Za-z0-9%.\-_~]\<close>; percent-decoding and base64-decoding it gives bytes that start
  with \<open>1f 8b\<close>, and gunzip of these bytes gives bytes that start with \<open>50 4b 03 04\<close>.
\<close>

theorem example_transport_string:
  assumes json: "JSON_stringify lib contivaExample = Some json"
    and archive: "archiver_zip lib 9 0 (lit ''data.json'') 0 json = Some archive"
    and gzip: "gzipSync lib 0 archive = Some compressed"
    and gzip_magic: "take 2 compressed = [0x1F, 0x8B]"
    and gunzip: "gunzipSync' compressed = Some archive"
    and zip_magic: "take 4 archive = [0x50, 0x4B, 0x03, 0x04]"
  shows "\<exists>encoded decodedUrl unzipped.
           encodeContivaData lib now contivaExample = Inr encoded
         \<and> list_all urlQuerySafe encoded
         \<and> decodeURIComponent encoded = Inr decodedUrl
         \<and> take 2 (Buffer_from_base64 decodedUrl) = [0x1F, 0x8B]
         \<and> gunzipSync' (Buffer_from_base64 decodedUrl) = Some unzipped
         \<and> take 4 unzipped = [0x50, 0x4B, 0x03, 0x04]"
proof -
  let ?base64 = "toString_base64 compressed"
  let ?encoded = "concat (map percent_form ?base64)"
  have 1: "encodeContivaData lib now contivaExample = Inr ?encoded"
    by (rule encodeContivaData_form [OF json archive gzip])
  have 2: "list_all urlQuerySafe ?encoded"
    by (rule percent_forms_safe [OF toString_base64_chars])
  have 3: "decodeURIComponent ?encoded = Inr ?base64"
    by (rule decodeURIComponent_percent_forms [OF toString_base64_ascii])
  have 4: "Buffer_from_base64 ?base64 = compressed"
    by (rule Buffer_from_base64_toString)
  have 5: "take 2 (Buffer_from_base64 ?base64) = [0x1F, 0x8B]"
    using gzip_magic by (simp only: 4)
  have 6: "gunzipSync' (Buffer_from_base64 ?base64) = Some archive"
    using gunzip by (simp only: 4)
  show ?thesis using 1 2 3 5 6 zip_magic by blast
qed

theorem example_transport_string_witness:
  "\<exists>encoded decodedUrl unzipped.
     encodeContivaData ref_encoder_lib 1768407316206 contivaExample = Inr encoded
   \<and> list_all urlQuerySafe encoded
   \<and> decodeURIComponent encoded = Inr decodedUrl
   \<and> take 2 (Buffer_from_base64 decodedUrl) = [0x1F, 0x8B]
   \<and> ref_gunzip (Buffer_from_base64 decodedUrl) = Some unzipped
   \<and> take 4 unzipped = [0x50, 0x4B, 0x03, 0x04]"
proof -
  let ?json = "stringify_payload contivaExample"
  let ?archive = "ref_zip 9 0 (lit ''data.json'') 0 ?json"
  have j: "JSON_stringify ref_encoder_lib contivaExample = Some ?json"
    by (simp add: ref_encoder_lib_def)
  have a: "archiver_zip ref_encoder_lib 9 0 (lit ''data.json'') 0 ?json = Some ?archive"
    by (simp add: ref_encoder_lib_def)
  obtain compressed where c: "ref_gzip 0 ?archive = Some compressed"
    using example_compressed by blast
  have z: "gzipSync ref_encoder_lib 0 ?archive = Some compressed"
    using c by (simp add: ref_encoder_lib_def)
  have m: "take 2 compressed = [0x1F, 0x8B]"
    by (rule ref_gzip_magic [OF c])
  have g: "ref_gunzip compressed = Some ?archive"
    by (rule ref_gunzip_ref_gzip [OF c])
  have s: "take 4 ?archive = [0x50, 0x4B, 0x03, 0x04]"
    by (rule ref_zip_magic)
  show ?thesis
    by (rule example_transport_string [of ref_encoder_lib ?json ?archive compressed
          ref_gunzip 1768407316206, OF j a z m g s])
qed

text \<open>
  C5 as stated: the first step of the deflate-variant decoder percent-decodes its input,
  so that the decoder is its own steps after a percent-decoding step. Neither decoder is.
  decodeGroovyString skips the \<open>%\<close> of \<^verbatim>\<open>AQIA_f97fQ%\<close> as a character outside the alphabet
  and returns the document, where percent-decoding fails; decodeGroovyData rejects the \<open>%\<close>
  of \<^verbatim>\<open>AQIA_f97fQ%3D%3D\<close> at its base64 step, where percent-decoding gives
  \<^verbatim>\<open>AQIA_f97fQ==\<close> and then the document.
\<close>

theorem percent_first_counterexample:
  "decodeGroovyString ref_node_lib (lit ''AQIA_f97fQ%'') = Inr (JObject [])
   \<and> percent_decode_first (decodeGroovyString ref_node_lib) (lit ''AQIA_f97fQ%'')
       = Inl (DecodeError PercentDecoding)
   \<and> decodeGroovyData ref_groovy_lib (lit ''AQIA_f97fQ%3D%3D'') = Inl (DecodeError Base64Decoding)
   \<and> percent_decode_first (decodeGroovyData ref_groovy_lib) (lit ''AQIA_f97fQ%3D%3D'')
       = Inr (JObject [])"
  by code_simp

text \<open>
  C5, amended. The decoders of the deflate variant do not percent-decode. Their first step
  is the normalisation of the alphabet: they return for the normalised string what they
  return for the string itself. A \<open>%\<close> is never the start of an escape: decodeGroovyString
  skips it as a character outside the alphabet, so that its result is the same when every
  \<open>%\<close> is removed from the input, and decodeGroovyData fails at its base64 step on every
  input that contains one. On a transport string without \<open>%\<close>, percent-decoding changes
  nothing, and each decoder agrees with the pipeline that percent-decodes first.
\<close>

theorem no_percent_decoding:
  "decodeGroovyString nlib (toStandardBase64 s) = decodeGroovyString nlib s
   \<and> decodeGroovyData glib (toStandardBase64 s) = decodeGroovyData glib s
   \<and> decodeGroovyString nlib (filter (\<lambda>c. c \<noteq> 37) s) = decodeGroovyString nlib s
   \<and> (37 \<in> set s \<longrightarrow> decodeGroovyData glib s = Inl (DecodeError Base64Decoding))
   \<and> (37 \<notin> set s \<longrightarrow>
          decodeGroovyString nlib s = percent_decode_first (decodeGroovyString nlib) s
        \<and> decodeGroovyData glib s = percent_decode_first (decodeGroovyData glib) s)"
proof -
  have 1: "decodeGroovyString nlib (toStandardBase64 s) = decodeGroovyString nlib s"
    unfolding decodeGroovyString_def Let_def by (simp only: toStandardBase64_idem)
  have 2: "decodeGroovyData glib (toStandardBase64 s) = decodeGroovyData glib s"
    unfolding decodeGroovyData_def Let_def by (simp only: toStandardBase64_idem)
  have 3: "decodeGroovyString nlib (filter (\<lambda>c. c \<noteq> 37) s) = decodeGroovyString nlib s"
    by (rule decodeGroovyString_skips_percent)
  have 4: "37 \<in> set s \<longrightarrow> decodeGroovyData glib s = Inl (DecodeError Base64Decoding)"
    using decodeGroovyData_rejects_percent by blast
  have 5: "37 \<notin> set s \<longrightarrow>
          decodeGroovyString nlib s = percent_decode_first (decodeGroovyString nlib) s
        \<and> decodeGroovyData glib s = percent_decode_first (decodeGroovyData glib) s"
  proof
    assume p: "37 \<notin> set s"
    show "decodeGroovyString nlib s = percent_decode_first (decodeGroovyString nlib) s
        \<and> decodeGroovyData glib s = percent_decode_first (decodeGroovyData glib) s"
      unfolding percent_decode_first_def
      by (simp only: decodeURIComponent_plain [OF p] sum.case)
  qed
  show ?thesis using 1 2 3 4 5 by blast
qed

theorem no_percent_decoding_witness:
  "decodeGroovyString ref_node_lib (lit ''AQIA_f97fQ'')
     = percent_decode_first (decodeGroovyString ref_node_lib) (lit ''AQIA_f97fQ'')
   \<and> decodeGroovyData ref_groovy_lib (lit ''AQIA_f97fQ'')
     = percent_decode_first (decodeGroovyData ref_groovy_lib) (lit ''AQIA_f97fQ'')
   \<and> decodeGroovyString ref_node_lib (lit ''AQIA_f97fQ'') = Inr (JObject [])
   \<and> decodeGroovyString ref_node_lib (lit ''A%QIA_f97%fQ%'') = Inr (JObject [])
   \<and> decodeGroovyData ref_groovy_lib (lit ''A%QIA_f97%fQ%'') = Inl (DecodeError Base64Decoding)"
proof -
  have p: "37 \<notin> set (lit ''AQIA_f97fQ'')" by (simp add: lit_def)
  have q: "37 \<in> set (lit ''A%QIA_f97%fQ%'')" by (simp add: lit_def)
  have f: "filter (\<lambda>c. c \<noteq> 37) (lit ''A%QIA_f97%fQ%'') = lit ''AQIA_f97fQ''"
    by (simp add: lit_def)
  have v: "decodeGroovyString ref_node_lib (lit ''AQIA_f97fQ'') = Inr (JObject [])"
    by code_simp
  show ?thesis
    using no_percent_decoding [where s = "lit ''AQIA_f97fQ''" and nlib = ref_node_lib
        and glib = ref_groovy_lib]
      no_percent_decoding [where s = "lit ''A%QIA_f97%fQ%''" and nlib = ref_node_lib
        and glib = ref_groovy_lib]
      p q v
    by (simp only: f) simp
qed

text \<open>
  C6. For a string of length \<open>L\<close> the padding count \<open>(4 - L % 4) % 4\<close> is at most 3 and
  brings the length to a multiple of four, and it is 0 for a length that is already a
  multiple of four: the padding step then appends nothing. In the encoder it never
  appends anything, since \<^verbatim>\<open>toString('base64')\<close> has padded the text already.
\<close>

theorem paddingNeeded_bounds:
  "(L + paddingNeeded L) mod 4 = 0 \<and> paddingNeeded L \<le> 3
   \<and> paddingNeeded (4 * k) = 0
   \<and> length (restorePadding s) = length s + paddingNeeded (length s)
   \<and> (paddingNeeded (length s) = 0 \<longrightarrow> restorePadding s = s)
   \<and> restorePadding (toString_base64 bs) = toString_base64 bs"
  using paddingNeeded_mod paddingNeeded_le paddingNeeded_mult4 restorePadding_length
    restorePadding_noop restorePadding_toString_base64 by blast

theorem paddingNeeded_bounds_witness:
  "paddingNeeded (length (lit ''AQIA/f97fQ=='')) = 0
   \<and> restorePadding (lit ''AQIA/f97fQ=='') = lit ''AQIA/f97fQ==''"
proof -
  have "paddingNeeded (length (lit ''AQIA/f97fQ=='')) = 0"
    by (simp add: paddingNeeded_def lit_def)
  with paddingNeeded_bounds [of 0 0 "lit ''AQIA/f97fQ==''" "[]"] show ?thesis by simp
qed



text \<open>
  C8. Whenever decodeContivaData accepts a transport string, its result is the output of
  gunzip on the base64-decoded bytes, together with a fixed message. The result type holds
  bytes, not a document: the archive is not parsed.
\<close>

theorem decodeContivaData_raw_archive:
  assumes "decodeContivaData gunzipSync' encodedData = Inr result"
  shows "\<exists>decodedUrl.
           decodeURIComponent encodedData = Inr decodedUrl
         \<and> gunzipSync' (Buffer_from_base64 (toStandardBase64 decodedUrl))
               = Some (zipBuffer result)
         \<and> message result =
               ''This is a ZIP archive. Extract with a ZIP tool or use the archiver library to read.''"
  using assms unfolding decodeContivaData_def Let_def
  by (auto split: sum.splits option.splits)

theorem decodeContivaData_raw_archive_witness:
  "decodeContivaData ref_gunzip
       (lit ''H4sIAAAAAAAAAwEWAOn%2FUEsFBgAAAAAAAAAAAAAAAAAAAAAAAA7Fy9cWAAAA'')
     = Inr \<lparr>zipBuffer = [0x50, 0x4B, 5, 6, 0, 0, 0, 0, 0, 0, 0, 0, 0, 0, 0, 0, 0, 0, 0, 0, 0, 0],
           message = ''This is a ZIP archive. Extract with a ZIP tool or use the archiver library to read.''\<rparr>
   \<and> (\<exists>decodedUrl.
         decodeURIComponent
           (lit ''H4sIAAAAAAAAAwEWAOn%2FUEsFBgAAAAAAAAAAAAAAAAAAAAAAAA7Fy9cWAAAA'') = Inr decodedUrl
       \<and> ref_gunzip (Buffer_from_base64 (toStandardBase64 decodedUrl))
             = Some [0x50, 0x4B, 5, 6, 0, 0, 0, 0, 0, 0, 0, 0, 0, 0, 0, 0, 0, 0, 0, 0, 0, 0])"
proof -
  let ?encodedData = "lit ''H4sIAAAAAAAAAwEWAOn%2FUEsFBgAAAAAAAAAAAAAAAAAAAAAAAA7Fy9cWAAAA''"
  let ?decodedUrl = "lit ''H4sIAAAAAAAAAwEWAOn/UEsFBgAAAAAAAAAAAAAAAAAAAAAAAA7Fy9cWAAAA''"
  let ?archive = "[0x50, 0x4B, 5, 6, 0, 0, 0, 0, 0, 0, 0, 0, 0, 0, 0, 0, 0, 0, 0, 0, 0, 0] :: byte list"
  let ?member = "[0x1F, 0x8B, 8, 0, 0, 0, 0, 0, 0, 3, 1, 0x16, 0, 0xE9, 0xFF] @ ?archive
                 @ [0x0E, 0xC5, 0xCB, 0xD7, 0x16, 0, 0, 0] :: byte list"
  have u: "decodeURIComponent ?encodedData = Inr ?decodedUrl"
    by code_simp
  have b: "Buffer_from_base64 (toStandardBase64 ?decodedUrl) = ?member"
    by code_simp
  have crc: "crc32 ?archive = 0xD7CBC50E"
    by (simp add: crc32_def crc32_byte_def crc32_bit_def funpow_8)
  have g: "ref_gunzip ?member = Some ?archive"
    by (simp add: ref_gunzip_def inflate_stored_def crc le32_def)
  have e: "decodeContivaData ref_gunzip ?encodedData
     = Inr \<lparr>zipBuffer = ?archive,
           message = ''This is a ZIP archive. Extract with a ZIP tool or use the archiver library to read.''\<rparr>"
    unfolding decodeContivaData_def Let_def by (simp only: u b g sum.case option.case)
  show ?thesis using e decodeContivaData_raw_archive [OF e] by simp
qed

text \<open>
  C9 as stated: a transport string with an invalid length or invalid padding makes the
  decoder fail with the error of the base64 stage. \<^verbatim>\<open>AQIA_f97fQ===\<close> has one \<open>=\<close> too many
  and the strict decoder rejects its padded form, but decodeGroovyString returns the
  document: \<^verbatim>\<open>Buffer.from\<close> stops at the first \<open>=\<close>. On the single character \<^verbatim>\<open>A\<close> it decodes
  no byte and the failure is that of the inflater.
\<close>

theorem bad_padding_counterexample:
  "decodeGroovyString ref_node_lib (lit ''AQIA_f97fQ==='') = Inr (JObject [])
   \<and> Base64_decoder_decode (restorePadding (toStandardBase64 (lit ''AQIA_f97fQ===''))) 
       = Inl (DecodeError Base64Decoding)
   \<and> decodeGroovyString ref_node_lib (lit ''A'') = Inl (DecodeError Decompression)"
  by code_simp

text \<open>
  C9, amended. Take a string of characters of the base64 alphabet (standard or URL-safe)
  followed by \<open>k\<close> characters \<open>=\<close>. decodeGroovyData fails with the error of the base64
  stage exactly when the number of data characters is 1 modulo 4, or there are more \<open>=\<close>
  than the last unit takes: any after a full unit, more than two after a unit of two
  characters, more than one after a unit of three. decodeGroovyString never fails with the
  error of the base64 stage.
\<close>

theorem groovy_rejects_bad_padding:
  assumes body: "\<forall>c\<in>set body. unbase64 c \<noteq> None"
  shows "(decodeGroovyData glib (body @ replicate k 61) = Inl (DecodeError Base64Decoding))
         = (length body mod 4 = 1 \<or> (length body mod 4 = 0 \<and> 0 < k)
            \<or> (length body mod 4 = 2 \<and> 2 < k) \<or> (length body mod 4 = 3 \<and> 1 < k))
       \<and> decodeGroovyString nlib s \<noteq> Inl (DecodeError Base64Decoding)"
proof -
  let ?vs = "map (\<lambda>c. the (unbase64 c)) body"
  let ?K = "k + paddingNeeded (length body + k)"
  let ?ok = "(length body mod 4 = 0 \<and> ?K = 0)
    \<or> (length body mod 4 = 2 \<and> (?K = 0 \<or> ?K = 2))
    \<or> (length body mod 4 = 3 \<and> (?K = 0 \<or> ?K = 1))"
  let ?bad = "length body mod 4 = 1 \<or> (length body mod 4 = 0 \<and> 0 < k)
            \<or> (length body mod 4 = 2 \<and> 2 < k) \<or> (length body mod 4 = 3 \<and> 1 < k)"
  have std: "toStandardBase64 body = map b64char ?vs" and vs: "\<forall>v\<in>set ?vs. v < 64"
    using toStandardBase64_body [OF body] by blast+
  have padded: "restorePadding (toStandardBase64 (body @ replicate k 61))
      = map b64char ?vs @ replicate ?K 61"
    unfolding restorePadding_def toStandardBase64_append toStandardBase64_padding std
    by (simp add: replicate_add)
  have d: "Base64_decoder_decode (restorePadding (toStandardBase64 (body @ replicate k 61)))
      = (if ?ok then Inr (sextets_bytes ?vs) else Inl (DecodeError Base64Decoding))"
    unfolding padded Base64_decoder_decode_def
    using decode0_text [OF vs, of ?K] by simp
  have "(decodeGroovyData glib (body @ replicate k 61) = Inl (DecodeError Base64Decoding))
      = (\<not> ?ok)"
  proof (cases ?ok)
    case True
    then have "Base64_decoder_decode (restorePadding (toStandardBase64 (body @ replicate k 61)))
      = Inr (sextets_bytes ?vs)"
      using d by (simp only: if_True)
    from decodeGroovyData_after_base64 [OF this] True show ?thesis by blast
  next
    case False
    then have "Base64_decoder_decode (restorePadding (toStandardBase64 (body @ replicate k 61)))
      = Inl (DecodeError Base64Decoding)"
      using d by (simp only: if_False)
    from decodeGroovyData_base64_error [OF this] False show ?thesis by blast
  qed
  also have "(\<not> ?ok) = ?bad"
    by (simp only: padded_acceptance [of "length body" k] not_not)
  finally show ?thesis using decodeGroovyString_no_base64_error by blast
qed

theorem groovy_rejects_bad_padding_witness:
  "decodeGroovyData ref_groovy_lib (lit ''AQIA_f97fQ'' @ replicate 3 61)
     = Inl (DecodeError Base64Decoding)
   \<and> decodeGroovyData ref_groovy_lib (lit ''AQIA_f97fQ'' @ replicate 2 61)
     \<noteq> Inl (DecodeError Base64Decoding)"
proof -
  have b: "\<forall>c\<in>set (lit ''AQIA_f97fQ''). unbase64 c \<noteq> None"
    by (simp add: lit_def unbase64_def)
  have l: "length (lit ''AQIA_f97fQ'') mod 4 = 2" by (simp add: lit_def)
  show ?thesis
    using groovy_rejects_bad_padding [OF b, of ref_groovy_lib 3 ref_node_lib]
      groovy_rejects_bad_padding [OF b, of ref_groovy_lib 2 ref_node_lib] l
    by simp
qed




end
